theory Spec2Isabelle
  imports Main "HOL-Library.Char_ord" "HOL-Library.List_Lexorder"
begin

section \<open>JavaScript strings and arrays\<close>

text \<open>
  A string is a list of code units; the model covers the code units below 256, which
  Isabelle's \<open>char\<close> holds. The operations below are the JavaScript built-ins the
  sources call, each written out with its behaviour at the edges.
\<close>

datatype js_error = TypeError | IOError

definition nl :: string where
  "nl = [CHR 0x0A]"

definition marker :: string where
  "marker = ''---''"

definition is_ws :: "char \<Rightarrow> bool" where
  \<comment> \<open>White space and line terminators removed by \<open>String.prototype.trim\<close>.\<close>
  "is_ws c = (c = CHR 0x09 \<or> c = CHR 0x0A \<or> c = CHR 0x0B \<or> c = CHR 0x0C \<or> c = CHR 0x0D
               \<or> c = CHR 0x20 \<or> c = CHR 0xA0)"

definition trim :: "string \<Rightarrow> string" where
  "trim s = rev (dropWhile is_ws (rev (dropWhile is_ws s)))"

fun js_split :: "char \<Rightarrow> string \<Rightarrow> string list" where
  \<comment> \<open>\<open>s.split(c)\<close> for a one-character separator: never the empty array.\<close>
  "js_split c [] = [[]]"
| "js_split c (x # xs) =
     (if x = c then [] # js_split c xs
      else (case js_split c xs of
              [] \<Rightarrow> [[x]]
            | piece # pieces \<Rightarrow> (x # piece) # pieces))"

fun join :: "string \<Rightarrow> string list \<Rightarrow> string" where
  "join sep [] = []"
| "join sep [x] = x"
| "join sep (x # y # ys) = x @ sep @ join sep (y # ys)"

definition slice :: "int \<Rightarrow> int \<Rightarrow> 'a list \<Rightarrow> 'a list" where
  \<comment> \<open>\<open>xs.slice(a, b)\<close>: a negative index counts from the end, both are clamped.\<close>
  "slice a b xs =
     (let n = int (length xs);
          k = (if a < 0 then max (n + a) 0 else min a n);
          final = (if b < 0 then max (n + b) 0 else min b n)
      in take (nat (final - k)) (drop (nat k) xs))"

definition index :: "'a list \<Rightarrow> int \<Rightarrow> 'a option" where
  \<comment> \<open>\<open>xs[i]\<close>: \<open>None\<close> stands for \<open>undefined\<close>.\<close>
  "index xs i = (if 0 \<le> i \<and> i < int (length xs) then Some (xs ! nat i) else None)"

definition is_lower :: "char \<Rightarrow> bool" where
  \<comment> \<open>The character class \<open>[a-z]\<close>.\<close>
  "is_lower c = (97 \<le> (of_char c :: nat) \<and> (of_char c :: nat) \<le> 122)"

definition upper_char :: "char \<Rightarrow> char" where
  \<comment> \<open>\<open>toUpperCase\<close> of one code unit; only applied to \<open>[a-z]\<close> by the sources.\<close>
  "upper_char c = (if is_lower c then char_of ((of_char c :: nat) - 32) else c)"

definition lower_char :: "char \<Rightarrow> char" where
  \<comment> \<open>\<open>toLowerCase\<close> of one code unit below 256: A-Z and the Latin-1 capitals.\<close>
  "lower_char c =
     (let n = (of_char c :: nat)
      in if (65 \<le> n \<and> n \<le> 90) \<or> (192 \<le> n \<and> n \<le> 222 \<and> n \<noteq> 215)
         then char_of (n + 32) else c)"

definition toLowerCase :: "string \<Rightarrow> string" where
  "toLowerCase s = map lower_char s"

fun starts_with :: "string \<Rightarrow> string \<Rightarrow> bool" where
  "starts_with s [] = True"
| "starts_with [] (q # qs) = False"
| "starts_with (c # cs) (q # qs) = (c = q \<and> starts_with cs qs)"

fun js_includes :: "string \<Rightarrow> string \<Rightarrow> bool" where
  \<comment> \<open>\<open>s.includes(q)\<close>: \<open>q\<close> occurs in \<open>s\<close> at some position.\<close>
  "js_includes [] q = (q = [])"
| "js_includes (c # cs) q = (starts_with (c # cs) q \<or> js_includes cs q)"

definition endsWith :: "string \<Rightarrow> string \<Rightarrow> bool" where
  "endsWith s q = starts_with (rev s) (rev q)"

section \<open>The decoded metadata block\<close>

text \<open>
  \<open>YAML.parse\<close> belongs to a library outside the repository, so the parser takes it as a
  parameter \<open>Y\<close>: a function from the block's text to either a thrown error or a decoded
  value. Numbers are kept abstract; \<open>S\<close> is JavaScript's rendering of a number as a string.
  A decoded value is a finite tree. The pairs of a \<open>JObj\<close> are the mapping's own
  properties, listed in the order of \<open>Object.entries\<close>; none of them is callable.
\<close>

datatype 'n jsval =
    JNull
  | JBool bool
  | JNum 'n
  | JStr string
  | JArr "'n jsval list"
  | JObj "(string \<times> 'n jsval) list"

datatype 'n yaml_result = Threw | Parsed "'n jsval"

fun digit_char :: "nat \<Rightarrow> char" where
  "digit_char n = char_of (48 + n mod 10)"

fun show_nat :: "nat \<Rightarrow> string" where
  "show_nat n = (if n < 10 then [digit_char n] else show_nat (n div 10) @ [digit_char n])"

text \<open>
  \<open>String(value)\<close> can throw. For a mapping it looks up \<open>toString\<close>: the inherited method
  gives \<open>[object Object]\<close>, but an own property of that name hides it, is not callable, and
  leaves only \<open>valueOf\<close>, which does not return a primitive either, so the conversion ends
  in a \<open>TypeError\<close>. An array joins the strings of its elements with commas, a \<open>null\<close>
  element counting as the empty string, and throws when an element does.
\<close>

fun js_String :: "('n \<Rightarrow> string) \<Rightarrow> 'n jsval \<Rightarrow> js_error + string"
and element_strings :: "('n \<Rightarrow> string) \<Rightarrow> 'n jsval list \<Rightarrow> js_error + string list" where
  "js_String S JNull = Inr ''null''"
| "js_String S (JBool b) = Inr (if b then ''true'' else ''false'')"
| "js_String S (JNum n) = Inr (S n)"
| "js_String S (JStr s) = Inr s"
| "js_String S (JArr xs) =
     (case element_strings S xs of
        Inl err \<Rightarrow> Inl err
      | Inr strs \<Rightarrow> Inr (join '','' strs))"
| "js_String S (JObj kvs) =
     (if ''toString'' \<in> set (map fst kvs) then Inl TypeError else Inr ''[object Object]'')"
| "element_strings S [] = Inr []"
| "element_strings S (x # xs) =
     (case (case x of JNull \<Rightarrow> Inr [] | _ \<Rightarrow> js_String S x) of
        Inl err \<Rightarrow> Inl err
      | Inr str \<Rightarrow>
          (case element_strings S xs of
             Inl err \<Rightarrow> Inl err
           | Inr strs \<Rightarrow> Inr (str # strs)))"

fun is_object :: "'n jsval \<Rightarrow> bool" where
  \<comment> \<open>\<open>parsed && typeof parsed === "object"\<close>: arrays and objects; \<open>null\<close> is falsy.\<close>
  "is_object (JArr xs) = True"
| "is_object (JObj kvs) = True"
| "is_object v = False"

fun entries :: "'n jsval \<Rightarrow> (string \<times> 'n jsval) list" where
  \<comment> \<open>\<open>Object.entries\<close> of an object or an array (indices as decimal keys).\<close>
  "entries (JObj kvs) = kvs"
| "entries (JArr xs) = zip (map show_nat [0..<length xs]) xs"
| "entries v = []"

section \<open>The document parser\<close>

text \<open>
  The metadata object is a finite map from keys to strings: nothing in the sources
  enumerates it, so the order of its keys is not part of the model.
\<close>

type_synonym ScoreMetadata = "string \<rightharpoonup> string"

record ParsedGenFile =
  notation_text :: string
  metadata :: ScoreMetadata

fun camelKey :: "string \<Rightarrow> string" where
  \<comment> \<open>\<open>key.replace(/-([a-z])/g, (_, letter) => letter.toUpperCase())\<close>\<close>
  "camelKey (c # d # cs) =
     (if c = CHR ''-'' \<and> is_lower d then upper_char d # camelKey cs
      else c # camelKey (d # cs))"
| "camelKey cs = cs"

definition set_property :: "ScoreMetadata \<Rightarrow> string \<Rightarrow> string \<Rightarrow> ScoreMetadata" where
  \<comment> \<open>\<open>result[key] = str\<close> on an object literal: the key \<open>__proto__\<close> reaches the setter
      inherited from \<open>Object.prototype\<close>, which ignores a string and stores nothing.\<close>
  "set_property result key str = (if key = ''__proto__'' then result else result(key \<mapsto> str))"

fun normalize_loop ::
  "('n \<Rightarrow> string) \<Rightarrow> (string \<times> 'n jsval) list \<Rightarrow> ScoreMetadata \<Rightarrow> js_error + ScoreMetadata" where
  \<comment> \<open>The \<open>for\<close> loop over the entries; a throwing \<open>String(value)\<close> ends it.\<close>
  "normalize_loop S [] result = Inr result"
| "normalize_loop S ((key, v) # rest) result =
     (let camel = camelKey key
      in case js_String S v of
           Inl err \<Rightarrow> Inl err
         | Inr str \<Rightarrow> normalize_loop S rest (set_property result camel str))"

definition normalizeMetadataKeys ::
  "('n \<Rightarrow> string) \<Rightarrow> 'n jsval \<Rightarrow> js_error + ScoreMetadata" where
  "normalizeMetadataKeys S obj = normalize_loop S (entries obj) Map.empty"

function scanLines :: "string list \<Rightarrow> int \<Rightarrow> int \<times> int \<Rightarrow> js_error + int \<times> int" where
  \<comment> \<open>The backward loop; the state is (metadataStartIndex, metadataEndIndex).\<close>
  "scanLines lines i (metadataStartIndex, metadataEndIndex) =
     (if i \<ge> 0 then
        (case index lines i of
           None \<Rightarrow> Inl TypeError
         | Some line \<Rightarrow>
            if trim line = marker then
              (if metadataEndIndex = -1
               then scanLines lines (i - 1) (metadataStartIndex, i)
               else Inr (i, metadataEndIndex))
            else scanLines lines (i - 1) (metadataStartIndex, metadataEndIndex))
      else Inr (metadataStartIndex, metadataEndIndex))"
  by pat_completeness auto
termination
  by (relation "measure (\<lambda>(lines, i, se). nat (i + 1))") auto

definition parseGenFile ::
  "('n \<Rightarrow> string) \<Rightarrow> (string \<Rightarrow> 'n yaml_result) \<Rightarrow> string \<Rightarrow> js_error + ParsedGenFile" where
  "parseGenFile S Y content =
     (let lines = js_split CHR 0x0A content
      in case scanLines lines (int (length lines) - 1) (-1, -1) of
           Inl err \<Rightarrow> Inl err
         | Inr (metadataStartIndex, metadataEndIndex) \<Rightarrow>
             if metadataStartIndex = -1 \<or> metadataEndIndex = -1
                \<or> metadataStartIndex \<ge> metadataEndIndex
             then Inr \<lparr>notation_text = trim content, metadata = Map.empty\<rparr>
             else
               let body = trim (join nl (slice 0 metadataStartIndex lines));
                   rawMetadata = join nl (slice (metadataStartIndex + 1) metadataEndIndex lines);
                   metadata =
                     (case Y rawMetadata of
                        Threw \<Rightarrow> Map.empty
                      | Parsed parsed \<Rightarrow>
                          if is_object parsed then
                            (case normalizeMetadataKeys S parsed of
                               Inl err \<Rightarrow> Map.empty
                             | Inr normalized \<Rightarrow> normalized)
                          else Map.empty)
               in Inr \<lparr>notation_text = body, metadata = metadata\<rparr>)"

section \<open>The catalog service\<close>

record Score =
  path :: string
  filename :: string
  category :: string
  fullCategory :: string
  content :: string
  notation_text :: string
  title :: "string option"
  composer :: "string option"
  timeSignature :: "string option"
  tempo :: "string option"
  keySignature :: "string option"
  metadata :: ScoreMetadata

record ScoreFilter =
  title :: "string option"
  composer :: "string option"
  category :: "string option"
  timeSignature :: "string option"
  tempo :: "string option"
  keySignature :: "string option"

text \<open>
  The document root as the scan sees it: \<open>readdir\<close> lists a directory's entries in
  order, \<open>readFile\<close> returns a file's text, and either can fail.
\<close>

datatype fs_entry =
    File string string
  | Unreadable string
  | Dir string "fs_entry list"
  | NoAccess string

fun entry_name :: "fs_entry \<Rightarrow> string" where
  "entry_name (File name text) = name"
| "entry_name (Unreadable name) = name"
| "entry_name (Dir name es) = name"
| "entry_name (NoAccess name) = name"

fun isDirectory :: "fs_entry \<Rightarrow> bool" where
  "isDirectory (Dir name es) = True"
| "isDirectory (NoAccess name) = True"
| "isDirectory e = False"

fun readdir :: "fs_entry \<Rightarrow> js_error + fs_entry list" where
  "readdir (Dir name es) = Inr es"
| "readdir e = Inl IOError"

fun readFile :: "fs_entry \<Rightarrow> js_error + string" where
  "readFile (File name text) = Inr text"
| "readFile e = Inl IOError"

definition make_score ::
  "string \<Rightarrow> string \<Rightarrow> string \<Rightarrow> ParsedGenFile \<Rightarrow> Score" where
  \<comment> \<open>The record pushed for one file; \<open>pathParts[0]\<close> exists since \<open>split\<close> is never empty.\<close>
  "make_score relativePath name text parsed =
     (let pathParts = js_split CHR ''/'' relativePath;
          category = hd pathParts;
          fullCategory = join ''/'' (slice 0 (-1) pathParts);
          md = ParsedGenFile.metadata parsed
      in \<lparr>path = relativePath, filename = name, category = category,
          fullCategory = fullCategory, content = text,
          notation_text = ParsedGenFile.notation_text parsed,
          title = md ''title'', composer = md ''composer'',
          timeSignature = md ''timeSignature'', tempo = md ''tempo'',
          keySignature = md ''keySignature'', metadata = md\<rparr>)"

fun scanDirectory ::
  "('n \<Rightarrow> string) \<Rightarrow> (string \<Rightarrow> 'n yaml_result) \<Rightarrow> fs_entry \<Rightarrow> string
     \<Rightarrow> js_error + Score list"
and scanEntries ::
  "('n \<Rightarrow> string) \<Rightarrow> (string \<Rightarrow> 'n yaml_result) \<Rightarrow> fs_entry list \<Rightarrow> string
     \<Rightarrow> js_error + Score list" where
  "scanDirectory S Y (Dir name es) basePath = scanEntries S Y es basePath"
| "scanDirectory S Y (File name text) basePath = Inl IOError"
| "scanDirectory S Y (Unreadable name) basePath = Inl IOError"
| "scanDirectory S Y (NoAccess name) basePath = Inl IOError"
| "scanEntries S Y [] basePath = Inr []"
| "scanEntries S Y (entry # rest) basePath =
     (let relativePath =
            (if basePath \<noteq> [] then basePath @ ''/'' @ entry_name entry else entry_name entry)
      in if isDirectory entry then
           (case scanDirectory S Y entry relativePath of
              Inl err \<Rightarrow> Inl err
            | Inr subScores \<Rightarrow>
                (case scanEntries S Y rest basePath of
                   Inl err \<Rightarrow> Inl err
                 | Inr scores \<Rightarrow> Inr (subScores @ scores)))
         else if endsWith (entry_name entry) ''.gen'' then
           (case readFile entry of
              Inl err \<Rightarrow> Inl err
            | Inr text \<Rightarrow>
                (case parseGenFile S Y text of
                   Inl err \<Rightarrow> Inl err
                 | Inr parsed \<Rightarrow>
                     (case scanEntries S Y rest basePath of
                        Inl err \<Rightarrow> Inl err
                      | Inr scores \<Rightarrow>
                          Inr (make_score relativePath (entry_name entry) text parsed # scores))))
         else scanEntries S Y rest basePath)"

text \<open>
  The module-level cache is the state: \<open>None\<close> is \<open>null\<close>. Every query returns its
  result together with the cache it leaves behind.
\<close>

definition loadAllScores ::
  "('n \<Rightarrow> string) \<Rightarrow> (string \<Rightarrow> 'n yaml_result) \<Rightarrow> fs_entry \<Rightarrow> Score list option
     \<Rightarrow> (js_error + Score list) \<times> Score list option" where
  "loadAllScores S Y root scoresCache =
     (case scoresCache of
        Some scores \<Rightarrow> (Inr scores, scoresCache)
      | None \<Rightarrow>
          (case scanDirectory S Y root [] of
             Inl err \<Rightarrow> (Inl err, None)
           | Inr scores \<Rightarrow> (Inr scores, Some scores)))"

fun partial_mismatch :: "string option \<Rightarrow> string option \<Rightarrow> bool" where
  \<comment> \<open>\<open>filter.title && !score.title?.toLowerCase().includes(filter.title.toLowerCase())\<close>\<close>
  "partial_mismatch None field = False"
| "partial_mismatch (Some q) None = (q \<noteq> [])"
| "partial_mismatch (Some q) (Some t) =
     (q \<noteq> [] \<and> \<not> js_includes (toLowerCase t) (toLowerCase q))"

fun category_mismatch :: "string option \<Rightarrow> string \<Rightarrow> string \<Rightarrow> bool" where
  "category_mismatch None cat full = False"
| "category_mismatch (Some q) cat full =
     (q \<noteq> [] \<and> toLowerCase cat \<noteq> toLowerCase q \<and> toLowerCase full \<noteq> toLowerCase q)"

fun exact_mismatch :: "string option \<Rightarrow> string option \<Rightarrow> bool" where
  \<comment> \<open>\<open>filter.tempo && score.tempo !== filter.tempo\<close>\<close>
  "exact_mismatch None field = False"
| "exact_mismatch (Some q) field = (q \<noteq> [] \<and> field \<noteq> Some q)"

definition keeps :: "ScoreFilter \<Rightarrow> Score \<Rightarrow> bool" where
  \<comment> \<open>The callback given to \<open>scores.filter\<close>.\<close>
  "keeps flt score =
     (if partial_mismatch (ScoreFilter.title flt) (Score.title score) then False
      else if partial_mismatch (ScoreFilter.composer flt) (Score.composer score) then False
      else if category_mismatch (ScoreFilter.category flt)
                (Score.category score) (Score.fullCategory score) then False
      else if exact_mismatch (ScoreFilter.timeSignature flt) (Score.timeSignature score)
        then False
      else if exact_mismatch (ScoreFilter.tempo flt) (Score.tempo score) then False
      else if exact_mismatch (ScoreFilter.keySignature flt) (Score.keySignature score)
        then False
      else True)"

definition filterScores ::
  "('n \<Rightarrow> string) \<Rightarrow> (string \<Rightarrow> 'n yaml_result) \<Rightarrow> fs_entry \<Rightarrow> Score list option
     \<Rightarrow> ScoreFilter option \<Rightarrow> (js_error + Score list) \<times> Score list option" where
  "filterScores S Y root scoresCache flt =
     (case loadAllScores S Y root scoresCache of
        (Inl err, cache) \<Rightarrow> (Inl err, cache)
      | (Inr scores, cache) \<Rightarrow>
          (case flt of
             None \<Rightarrow> (Inr scores, cache)
           | Some f \<Rightarrow> (Inr (filter (keeps f) scores), cache)))"

definition set_add :: "'a list \<Rightarrow> 'a \<Rightarrow> 'a list" where
  \<comment> \<open>\<open>Set.prototype.add\<close>, the set held as its elements in insertion order.\<close>
  "set_add xs x = (if x \<in> set xs then xs else xs @ [x])"

definition collect_categories :: "Score list \<Rightarrow> string list" where
  "collect_categories scores =
     fold (\<lambda>score categories.
             let added = set_add categories (Score.category score)
             in if Score.fullCategory score \<noteq> []
                   \<and> Score.fullCategory score \<noteq> Score.category score
                then set_add added (Score.fullCategory score) else added)
          scores []"

definition getAllCategories ::
  "('n \<Rightarrow> string) \<Rightarrow> (string \<Rightarrow> 'n yaml_result) \<Rightarrow> fs_entry \<Rightarrow> Score list option
     \<Rightarrow> (js_error + string list) \<times> Score list option" where
  "getAllCategories S Y root scoresCache =
     (case loadAllScores S Y root scoresCache of
        (Inl err, cache) \<Rightarrow> (Inl err, cache)
      | (Inr scores, cache) \<Rightarrow> (Inr (sort (collect_categories scores)), cache))"

definition collect_composers :: "Score list \<Rightarrow> string list" where
  "collect_composers scores =
     fold (\<lambda>score composers.
             case Score.composer score of
               None \<Rightarrow> composers
             | Some c \<Rightarrow> if c \<noteq> [] then set_add composers c else composers)
          scores []"

definition getAllComposers ::
  "('n \<Rightarrow> string) \<Rightarrow> (string \<Rightarrow> 'n yaml_result) \<Rightarrow> fs_entry \<Rightarrow> Score list option
     \<Rightarrow> (js_error + string list) \<times> Score list option" where
  "getAllComposers S Y root scoresCache =
     (case loadAllScores S Y root scoresCache of
        (Inl err, cache) \<Rightarrow> (Inl err, cache)
      | (Inr scores, cache) \<Rightarrow> (Inr (sort (collect_composers scores)), cache))"

section \<open>Specification-level notions\<close>

text \<open>
  The positions of the marker lines of a document, in increasing order, and the pairs a
  decoded block contributes.
\<close>

definition marker_positions :: "string list \<Rightarrow> nat list" where
  "marker_positions lines = filter (\<lambda>i. trim (lines ! i) = marker) [0..<length lines]"

definition decoded_pairs :: "'n yaml_result \<Rightarrow> (string \<times> 'n jsval) list" where
  "decoded_pairs r = (case r of Threw \<Rightarrow> [] | Parsed v \<Rightarrow> entries v)"

text \<open>
  A key has a pair left when a hyphen is directly followed by a letter of \<open>[a-z]\<close>.
  \<open>replace_leftmost\<close> rewrites the first such pair to the capital letter, and
  \<open>camel_repeat\<close> does so again and again until no pair is left.
\<close>

fun has_pair :: "string \<Rightarrow> bool" where
  "has_pair (c # d # cs) = ((c = CHR ''-'' \<and> is_lower d) \<or> has_pair (d # cs))"
| "has_pair cs = False"

fun replace_leftmost :: "string \<Rightarrow> string" where
  "replace_leftmost (c # d # cs) =
     (if c = CHR ''-'' \<and> is_lower d then upper_char d # cs
      else c # replace_leftmost (d # cs))"
| "replace_leftmost cs = cs"

function camel_repeat :: "string \<Rightarrow> string" where
  "camel_repeat k = (if has_pair k then camel_repeat (replace_leftmost k) else k)"
  by pat_completeness auto
termination
proof (relation "measure length")
  show "wf (measure length)"
    by simp
next
  fix k :: string
  assume "has_pair k"
  then have "length (replace_leftmost k) < length k"
    by (induction k rule: replace_leftmost.induct) auto
  then show "(replace_leftmost k, k) \<in> measure length"
    by simp
qed

text \<open>
  What a filter asks of a record. A criterion counts when it is given and is not the empty
  string. \<open>without_empty\<close> is the filter with its empty-string criteria taken away.
\<close>

definition contains_ci :: "string \<Rightarrow> string \<Rightarrow> bool" where
  "contains_ci t q = (\<exists>before after. toLowerCase t = before @ toLowerCase q @ after)"

definition equal_ci :: "string \<Rightarrow> string \<Rightarrow> bool" where
  "equal_ci a b = (toLowerCase a = toLowerCase b)"

definition satisfies :: "ScoreFilter \<Rightarrow> Score \<Rightarrow> bool" where
  "satisfies f s =
     ((\<forall>q. ScoreFilter.title f = Some q \<and> q \<noteq> [] \<longrightarrow>
          (\<exists>t. Score.title s = Some t \<and> contains_ci t q))
      \<and> (\<forall>q. ScoreFilter.composer f = Some q \<and> q \<noteq> [] \<longrightarrow>
          (\<exists>t. Score.composer s = Some t \<and> contains_ci t q))
      \<and> (\<forall>q. ScoreFilter.category f = Some q \<and> q \<noteq> [] \<longrightarrow>
          equal_ci (Score.category s) q \<or> equal_ci (Score.fullCategory s) q)
      \<and> (\<forall>q. ScoreFilter.timeSignature f = Some q \<and> q \<noteq> [] \<longrightarrow>
          Score.timeSignature s = Some q)
      \<and> (\<forall>q. ScoreFilter.tempo f = Some q \<and> q \<noteq> [] \<longrightarrow> Score.tempo s = Some q)
      \<and> (\<forall>q. ScoreFilter.keySignature f = Some q \<and> q \<noteq> [] \<longrightarrow>
          Score.keySignature s = Some q))"

fun drop_empty :: "string option \<Rightarrow> string option" where
  "drop_empty (Some []) = None"
| "drop_empty c = c"

definition without_empty :: "ScoreFilter \<Rightarrow> ScoreFilter" where
  "without_empty f =
     \<lparr>title = drop_empty (ScoreFilter.title f),
      composer = drop_empty (ScoreFilter.composer f),
      category = drop_empty (ScoreFilter.category f),
      timeSignature = drop_empty (ScoreFilter.timeSignature f),
      tempo = drop_empty (ScoreFilter.tempo f),
      keySignature = drop_empty (ScoreFilter.keySignature f)\<rparr>"

definition criteria :: "ScoreFilter \<Rightarrow> string option list" where
  "criteria f = [ScoreFilter.title f, ScoreFilter.composer f, ScoreFilter.category f,
                 ScoreFilter.timeSignature f, ScoreFilter.tempo f, ScoreFilter.keySignature f]"

text \<open>
  Names as a file system gives them: non-empty and without a slash. \<open>files_of\<close> lists the
  \<open>.gen\<close> files below an entry in traversal order, each with the directory names leading
  to it; \<open>placed\<close> is the path, file name, category and full category such a file is to
  get, and \<open>placement\<close> reads the same four fields off a record.
\<close>

definition good_name :: "string \<Rightarrow> bool" where
  "good_name name = (name \<noteq> [] \<and> CHR ''/'' \<notin> set name)"

fun well_named :: "fs_entry \<Rightarrow> bool" where
  "well_named (Dir name es) = (good_name name \<and> (\<forall>e \<in> set es. well_named e))"
| "well_named (File name text) = good_name name"
| "well_named (Unreadable name) = good_name name"
| "well_named (NoAccess name) = good_name name"

fun files_of :: "fs_entry \<Rightarrow> (string list \<times> string) list" where
  "files_of (File name text) = (if endsWith name ''.gen'' then [([], name)] else [])"
| "files_of (Unreadable name) = (if endsWith name ''.gen'' then [([], name)] else [])"
| "files_of (Dir name es) = map (\<lambda>(ds, f). (name # ds, f)) (concat (map files_of es))"
| "files_of (NoAccess name) = []"

definition placed :: "string list \<times> string \<Rightarrow> string \<times> string \<times> string \<times> string" where
  "placed = (\<lambda>(ds, f). (join ''/'' (ds @ [f]), f, hd (ds @ [f]), join ''/'' ds))"

definition placement :: "Score \<Rightarrow> string \<times> string \<times> string \<times> string" where
  "placement s = (Score.path s, Score.filename s, Score.category s, Score.fullCategory s)"

text \<open>
  The pairs with every value rendered as a string, when each value has a rendering, and
  the mapping that rendered pairs denote once every key is converted by \<open>camel_repeat\<close>, a
  later pair overriding an earlier one with the same converted key. A scalar is a value
  that is neither a sequence nor a mapping.
\<close>

fun render_all ::
  "('n \<Rightarrow> string) \<Rightarrow> (string \<times> 'n jsval) list \<Rightarrow> js_error + (string \<times> string) list" where
  "render_all S [] = Inr []"
| "render_all S ((k, v) # kvs) =
     (case js_String S v of
        Inl err \<Rightarrow> Inl err
      | Inr str \<Rightarrow>
          (case render_all S kvs of
             Inl err \<Rightarrow> Inl err
           | Inr rendered \<Rightarrow> Inr ((k, str) # rendered)))"

definition camel_map :: "(string \<times> string) list \<Rightarrow> ScoreMetadata" where
  "camel_map rendered = map_of (rev (map (\<lambda>(k, str). (camel_repeat k, str)) rendered))"

fun is_scalar :: "'n jsval \<Rightarrow> bool" where
  "is_scalar (JArr xs) = False"
| "is_scalar (JObj kvs) = False"
| "is_scalar v = True"

section \<open>Sample inputs\<close>

text \<open>
  A decoder given by a finite table of blocks (every other block is taken as malformed), an
  encoder for flat mappings, and a few documents; they instantiate the parameters where a
  statement is evaluated.
\<close>

definition ode_block :: string where
  "ode_block = ''title: Ode to Joy'' @ nl @ ''composer: Ludwig van Beethoven'' @ nl
                 @ ''time-signature: 4/4''"

definition ode_pairs :: "(string \<times> nat jsval) list" where
  "ode_pairs = [(''title'', JStr ''Ode to Joy''), (''composer'', JStr ''Ludwig van Beethoven''),
                (''time-signature'', JStr ''4/4'')]"

definition literal_block :: string where
  "literal_block = ''k: |-'' @ nl @ ''  x'' @ nl @ ''  ---'' @ nl @ ''  y''"

definition literal_pairs :: "(string \<times> nat jsval) list" where
  "literal_pairs = [(''k'', JStr (''x'' @ nl @ ''---'' @ nl @ ''y''))]"

definition signature_block :: string where
  "signature_block = ''time-signature: 3/4'' @ nl @ ''tempo: 120''"

definition signature_pairs :: "(string \<times> nat jsval) list" where
  "signature_pairs = [(''time-signature'', JStr ''3/4''), (''tempo'', JNum 120)]"

definition proto_block :: string where
  "proto_block = ''__proto__: x'' @ nl @ ''title: T''"

definition proto_pairs :: "(string \<times> nat jsval) list" where
  "proto_pairs = [(''__proto__'', JStr ''x''), (''title'', JStr ''T'')]"

definition nested_block :: string where
  "nested_block = ''title: T'' @ nl @ ''extra:'' @ nl @ ''  toString: 1''"

definition nested_pairs :: "(string \<times> nat jsval) list" where
  "nested_pairs = [(''title'', JStr ''T''), (''extra'', JObj [(''toString'', JNum 1)])]"

definition sample_yaml :: "string \<Rightarrow> nat yaml_result" where
  "sample_yaml block =
     (if block = ode_block then Parsed (JObj ode_pairs)
      else if block = signature_block then Parsed (JObj signature_pairs)
      else if block = proto_block then Parsed (JObj proto_pairs)
      else if block = nested_block then Parsed (JObj nested_pairs)
      else if block = literal_block then Parsed (JObj literal_pairs)
      else if block = ''  y'' then Parsed (JStr ''y'')
      else Threw)"

definition sample_encode :: "(string \<times> nat jsval) list \<Rightarrow> string" where
  "sample_encode M =
     join nl (map (\<lambda>(k, v). k @ '': '' @ (case js_String show_nat v of
                                              Inl err \<Rightarrow> [] | Inr str \<Rightarrow> str)) M)"




definition doc_one_marker :: string where
  "doc_one_marker = '' C D E'' @ nl @ ''---'' @ nl @ ''tempo: 120'' @ nl"

definition doc_malformed :: string where
  "doc_malformed = ''E F'' @ nl @ ''---'' @ nl @ ''title: ['' @ nl @ ''---''"


definition bare_score :: "string \<Rightarrow> string \<Rightarrow> string \<Rightarrow> string option \<Rightarrow> string option \<Rightarrow> Score" where
  "bare_score p cat full t c =
     \<lparr>path = p, filename = p, category = cat, fullCategory = full, content = [],
      notation_text = [], title = t, composer = c, timeSignature = Some ''4/4'',
      tempo = None, keySignature = None, metadata = Map.empty\<rparr>"

definition sample_catalog :: "Score list" where
  "sample_catalog =
     [bare_score ''baroque/air.gen'' ''baroque'' ''baroque'' (Some ''Air'')
        (Some ''Johann Sebastian Bach''),
      bare_score ''classical/sonata.gen'' ''classical'' ''classical'' (Some ''Sonata'')
        (Some ''Mozart''),
      bare_score ''baroque/suites/untitled.gen'' ''baroque'' ''baroque/suites'' None None]"

definition bach_filter :: ScoreFilter where
  "bach_filter = \<lparr>title = None, composer = Some ''bach'', category = Some ''BAROQUE'',
                   timeSignature = Some ''4/4'', tempo = None, keySignature = None\<rparr>"

definition empty_filter :: ScoreFilter where
  "empty_filter = \<lparr>title = Some [], composer = Some [], category = Some [],
                    timeSignature = Some [], tempo = Some [], keySignature = Some []\<rparr>"

definition no_root :: fs_entry where
  "no_root = NoAccess ''scores''"

definition fs_song :: fs_entry where
  "fs_song = Dir ''scores'' [File ''song.gen'' ''C D E'']"

definition nested_entries :: "fs_entry list" where
  "nested_entries =
     [File ''song.gen'' ''C D E'',
      Dir ''classical''
        [File ''ode.gen'' (''E E F G'' @ nl @ ''---'' @ nl @ ode_block @ nl @ ''---'' @ nl),
         File ''README.md'' ''notes'',
         Dir ''piano'' [File ''air.gen'' ''G A B'']]]"

section \<open>Facts about strings and the backward scan\<close>

lemma trim_marker: "trim marker = marker"
  by (simp add: trim_def marker_def is_ws_def)

lemma trim_Nil: "trim [] = []"
  by (simp add: trim_def)

lemma js_split_not_Nil: "js_split c s \<noteq> []"
  by (induction s) (auto split: list.splits)

lemma join_Cons: "ys \<noteq> [] \<Longrightarrow> join sep (x # ys) = x @ sep @ join sep ys"
  by (cases ys) auto

lemma join_split: "join [c] (js_split c s) = s"
proof (induction s)
  case Nil
  show ?case by simp
next
  case (Cons x xs)
  obtain piece pieces where sp: "js_split c xs = piece # pieces"
    using js_split_not_Nil [of c xs] by (cases "js_split c xs") auto
  show ?case
  proof (cases "x = c")
    case True
    then show ?thesis using Cons.IH by (simp add: join_Cons js_split_not_Nil)
  next
    case False
    have "join [c] ((x # piece) # pieces) = x # join [c] (piece # pieces)"
      by (cases pieces) auto
    then show ?thesis using False Cons.IH sp by simp
  qed
qed

lemma js_split_append: "js_split c (a @ c # b) = js_split c a @ js_split c b"
proof (induction a)
  case Nil
  show ?case by simp
next
  case (Cons x a)
  obtain piece pieces where sp: "js_split c a = piece # pieces"
    using js_split_not_Nil [of c a] by (cases "js_split c a") auto
  show ?case using Cons.IH sp by simp
qed

declare scanLines.simps [simp del]

declare show_nat.simps [simp del]

lemma scan_done: "scanLines lines (- 1) st = Inr st"
  by (cases st) (simp add: scanLines.simps)

lemma scan_other:
  "k < length lines \<Longrightarrow> trim (lines ! k) \<noteq> marker \<Longrightarrow>
   scanLines lines (int k) st = scanLines lines (int k - 1) st"
  by (cases st) (simp add: scanLines.simps index_def)

lemma scan_end_marker:
  "k < length lines \<Longrightarrow> trim (lines ! k) = marker \<Longrightarrow>
   scanLines lines (int k) (s, - 1) = scanLines lines (int k - 1) (s, int k)"
  by (simp add: scanLines.simps index_def)

lemma scan_start_marker:
  "k < length lines \<Longrightarrow> trim (lines ! k) = marker \<Longrightarrow> e \<noteq> - 1 \<Longrightarrow>
   scanLines lines (int k) (s, e) = Inr (int k, e)"
  by (simp add: scanLines.simps index_def)

lemma scan_skip:
  "j \<le> k \<Longrightarrow> k \<le> length lines \<Longrightarrow>
   \<forall>i. j \<le> i \<and> i < k \<longrightarrow> trim (lines ! i) \<noteq> marker \<Longrightarrow>
   scanLines lines (int k - 1) st = scanLines lines (int j - 1) st"
proof (induction k)
  case 0
  then show ?case by simp
next
  case (Suc k)
  show ?case
  proof (cases "j = Suc k")
    case True
    then show ?thesis by simp
  next
    case False
    with Suc.prems have jk: "j \<le> k" and kl: "k < length lines"
      and nm: "trim (lines ! k) \<noteq> marker" by auto
    have "scanLines lines (int (Suc k) - 1) st = scanLines lines (int k - 1) st"
      using scan_other [OF kl nm] by simp
    also have "\<dots> = scanLines lines (int j - 1) st"
      using Suc.IH jk Suc.prems by simp
    finally show ?thesis .
  qed
qed

lemma scan_none:
  assumes "\<forall>i < length lines. trim (lines ! i) \<noteq> marker"
  shows "scanLines lines (int (length lines) - 1) (- 1, - 1) = Inr (- 1, - 1)"
  using scan_skip [of 0 "length lines" lines "(- 1, - 1)"] assms by (simp add: scan_done)

lemma scan_one:
  assumes "e < length lines" "trim (lines ! e) = marker"
    and "\<forall>i < length lines. i \<noteq> e \<longrightarrow> trim (lines ! i) \<noteq> marker"
  shows "scanLines lines (int (length lines) - 1) (- 1, - 1) = Inr (- 1, int e)"
proof -
  have "scanLines lines (int (length lines) - 1) (- 1, - 1)
          = scanLines lines (int (Suc e) - 1) (- 1, - 1)"
    using scan_skip [of "Suc e" "length lines" lines] assms by simp
  also have "\<dots> = scanLines lines (int e - 1) (- 1, int e)"
    using scan_end_marker assms by simp
  also have "\<dots> = scanLines lines (int 0 - 1) (- 1, int e)"
    using scan_skip [of 0 e lines] assms by simp
  finally show ?thesis by (simp add: scan_done)
qed

lemma scan_two:
  assumes "s < e" "e < length lines"
    and "trim (lines ! s) = marker" "trim (lines ! e) = marker"
    and "\<forall>i. s < i \<and> i < length lines \<and> i \<noteq> e \<longrightarrow> trim (lines ! i) \<noteq> marker"
  shows "scanLines lines (int (length lines) - 1) (- 1, - 1) = Inr (int s, int e)"
proof -
  have "scanLines lines (int (length lines) - 1) (- 1, - 1)
          = scanLines lines (int (Suc e) - 1) (- 1, - 1)"
    using scan_skip [of "Suc e" "length lines" lines] assms by simp
  also have "\<dots> = scanLines lines (int e - 1) (- 1, int e)"
    using scan_end_marker assms by simp
  also have "\<dots> = scanLines lines (int (Suc s) - 1) (- 1, int e)"
    using scan_skip [of "Suc s" e lines] assms by simp
  also have "\<dots> = Inr (int s, int e)"
    using scan_start_marker [of s lines "int e"] assms by simp
  finally show ?thesis .
qed

lemma entries_not_object: "\<not> is_object v \<Longrightarrow> entries v = []"
  by (cases v) auto

lemma slice_take: "s \<le> length xs \<Longrightarrow> slice 0 (int s) xs = take s xs"
  by (simp add: slice_def Let_def min_def)

lemma slice_mid: "s < e \<Longrightarrow> e \<le> length xs \<Longrightarrow> slice (int s + 1) (int e) xs = drop (Suc s) (take e xs)"
  by (simp add: slice_def Let_def min_def drop_take nat_diff_distrib nat_add_distrib)

section \<open>Key normalisation\<close>

declare camel_repeat.simps [simp del]

lemma of_char_upper:
  assumes "is_lower d"
  shows "(of_char (upper_char d) :: nat) = of_char d - 32"
proof -
  have "(of_char d :: nat) - 32 < 256"
    using assms unfolding is_lower_def by linarith
  then show ?thesis
    using assms by (simp add: upper_char_def)
qed

lemma upper_not_lower: "is_lower d \<Longrightarrow> \<not> is_lower (upper_char d)"
  using of_char_upper [of d] by (auto simp: is_lower_def)

lemma upper_not_hyphen:
  assumes "is_lower d"
  shows "upper_char d \<noteq> CHR ''-''"
proof
  assume "upper_char d = CHR ''-''"
  then have "(of_char (upper_char d) :: nat) = 45" by simp
  then show False using of_char_upper [OF assms] assms unfolding is_lower_def by linarith
qed

lemma camelKey_Cons_other: "c \<noteq> CHR ''-'' \<Longrightarrow> camelKey (c # cs) = c # camelKey cs"
  by (cases cs) auto


lemma replace_leftmost_head:
  "replace_leftmost (d # cs) = x # xs \<Longrightarrow> x = d \<or> \<not> is_lower x"
  by (cases cs) (auto simp: upper_not_lower split: if_splits)


lemma replace_leftmost_not_Nil: "replace_leftmost (d # cs) \<noteq> []"
  by (cases cs) auto


lemma camelKey_replace_leftmost: "camelKey (replace_leftmost k) = camelKey k"
proof (induction k rule: replace_leftmost.induct)
  case (1 c d cs)
  show ?case
  proof (cases "c = CHR ''-'' \<and> is_lower d")
    case True
    then show ?thesis using upper_not_hyphen [of d] by (simp add: camelKey_Cons_other)
  next
    case False
    obtain x xs where xs: "replace_leftmost (d # cs) = x # xs"
      using replace_leftmost_not_Nil [of d cs] by (cases "replace_leftmost (d # cs)") auto
    have "x = d \<or> \<not> is_lower x" using replace_leftmost_head [OF xs] .
    with False have np: "\<not> (c = CHR ''-'' \<and> is_lower x)" by auto
    have "camelKey (replace_leftmost (c # d # cs)) = camelKey (c # x # xs)"
      using False xs by auto
    also have "\<dots> = c # camelKey (x # xs)" using np by auto
    also have "\<dots> = c # camelKey (d # cs)" using 1 False xs by auto
    also have "\<dots> = camelKey (c # d # cs)" using False by auto
    finally show ?thesis .
  qed
qed simp_all

lemma no_pair_camelKey: "\<not> has_pair k \<Longrightarrow> camelKey k = k"
  by (induction k rule: camelKey.induct) auto

lemma camelKey_repeat: "camelKey k = camel_repeat k"
proof (induction k rule: camel_repeat.induct)
  case (1 k)
  show ?case
  proof (cases "has_pair k")
    case True
    then have "camel_repeat k = camel_repeat (replace_leftmost k)"
      by (subst camel_repeat.simps) simp
    also have "\<dots> = camelKey (replace_leftmost k)" using 1 True by simp
    finally show ?thesis by (simp add: camelKey_replace_leftmost)
  next
    case False
    then have "camel_repeat k = k" by (subst camel_repeat.simps) simp
    then show ?thesis using False by (simp add: no_pair_camelKey)
  qed
qed

lemma camel_map_Cons:
  "camel_map ((k, str) # rendered) = [camel_repeat k \<mapsto> str] ++ camel_map rendered"
  by (simp add: camel_map_def map_of_append del: fun_upd_apply)

lemma fold_set_property:
  "k \<noteq> ''__proto__'' \<Longrightarrow>
   fold (\<lambda>(key, str) result. set_property result (camel_repeat key) str) rendered m0 k
     = (m0 ++ camel_map rendered) k"
proof (induction rendered arbitrary: m0)
  case Nil
  show ?case by (simp add: camel_map_def)
next
  case (Cons pair rendered)
  obtain key str where pair: "pair = (key, str)" by (cases pair)
  have "fold (\<lambda>(key, str) result. set_property result (camel_repeat key) str)
          (pair # rendered) m0 k
          = (set_property m0 (camel_repeat key) str ++ camel_map rendered) k"
    using Cons.IH [OF Cons.prems] by (simp add: pair)
  also have "\<dots> = (m0 ++ camel_map ((key, str) # rendered)) k"
    using Cons.prems
    by (auto simp: set_property_def camel_map_Cons map_add_def split: option.splits)
  finally show ?case by (simp add: pair)
qed

lemma normalize_loop_render:
  "normalize_loop S kvs m0 =
     (case render_all S kvs of
        Inl err \<Rightarrow> Inl err
      | Inr rendered \<Rightarrow>
          Inr (fold (\<lambda>(key, str) result. set_property result (camel_repeat key) str)
                 rendered m0))"
proof (induction kvs arbitrary: m0)
  case Nil
  show ?case by simp
next
  case (Cons kv kvs)
  obtain key v where kv: "kv = (key, v)" by (cases kv)
  show ?case
    by (simp add: kv Cons.IH camelKey_repeat Let_def split: sum.splits)
qed

lemma normalize_throws:
  "render_all S (entries obj) = Inl err \<Longrightarrow> normalizeMetadataKeys S obj = Inl err"
  by (simp add: normalizeMetadataKeys_def normalize_loop_render)

lemma normalize_returns:
  assumes "render_all S (entries obj) = Inr rendered"
  shows "\<exists>m. normalizeMetadataKeys S obj = Inr m
             \<and> (\<forall>k. k \<noteq> ''__proto__'' \<longrightarrow> m k = camel_map rendered k)"
  using assms by (simp add: normalizeMetadataKeys_def normalize_loop_render fold_set_property)



lemma scalar_renders: "is_scalar v \<Longrightarrow> \<exists>str. js_String S v = Inr str"
  by (cases v) auto

lemma scalars_render:
  "\<forall>(k, v) \<in> set kvs. is_scalar v \<Longrightarrow>
   \<exists>rendered. render_all S kvs = Inr rendered \<and> map fst rendered = map fst kvs"
proof (induction kvs)
  case Nil
  show ?case by simp
next
  case (Cons kv kvs)
  obtain k v where kv: "kv = (k, v)" by (cases kv)
  from Cons.prems obtain str where "js_String S v = Inr str"
    using scalar_renders [of v S] by (auto simp: kv)
  moreover from Cons obtain rendered where
    "render_all S kvs = Inr rendered" "map fst rendered = map fst kvs"
    by auto
  ultimately show ?case by (simp add: kv)
qed

section \<open>The parser and the marker positions\<close>

lemma caught_metadata:
  fixes r :: "'n yaml_result" and S :: "'n \<Rightarrow> string"
  defines "md \<equiv> (case r of
                    Threw \<Rightarrow> Map.empty
                  | Parsed parsed \<Rightarrow>
                      if is_object parsed then
                        (case normalizeMetadataKeys S parsed of
                           Inl err \<Rightarrow> Map.empty
                         | Inr normalized \<Rightarrow> normalized)
                      else Map.empty)"
  shows "r = Threw \<Longrightarrow> md = Map.empty"
    and "render_all S (decoded_pairs r) = Inl err \<Longrightarrow> md = Map.empty"
    and "render_all S (decoded_pairs r) = Inr rendered \<Longrightarrow>
           k \<noteq> ''__proto__'' \<Longrightarrow> md k = camel_map rendered k"
proof -
  show "r = Threw \<Longrightarrow> md = Map.empty"
    by (simp add: md_def)
  show "render_all S (decoded_pairs r) = Inl err \<Longrightarrow> md = Map.empty"
  proof (cases r)
    case Threw
    then show ?thesis by (simp add: md_def)
  next
    case (Parsed v)
    assume "render_all S (decoded_pairs r) = Inl err"
    then have "normalizeMetadataKeys S v = Inl err"
      using Parsed by (intro normalize_throws) (simp add: decoded_pairs_def)
    then show ?thesis by (simp add: md_def Parsed)
  qed
  show "md k = camel_map rendered k"
    if rr: "render_all S (decoded_pairs r) = Inr rendered" and k: "k \<noteq> ''__proto__''"
  proof (cases r)
    case Threw
    with rr show ?thesis by (auto simp: md_def decoded_pairs_def camel_map_def)
  next
    case (Parsed v)
    show ?thesis
    proof (cases "is_object v")
      case True
      from rr Parsed obtain m where "normalizeMetadataKeys S v = Inr m"
        "\<forall>k. k \<noteq> ''__proto__'' \<longrightarrow> m k = camel_map rendered k"
        using normalize_returns [of S v rendered] by (auto simp: decoded_pairs_def)
      then show ?thesis using k True by (simp add: md_def Parsed)
    next
      case False
      then have "entries v = []" by (rule entries_not_object)
      with rr Parsed False show ?thesis
        by (auto simp: md_def decoded_pairs_def camel_map_def)
    qed
  qed
qed

lemma parse_at:
  assumes "s < e" "e < length (js_split CHR 0x0A doc)"
    and "trim (js_split CHR 0x0A doc ! s) = marker" "trim (js_split CHR 0x0A doc ! e) = marker"
    and "\<forall>i. s < i \<and> i < length (js_split CHR 0x0A doc) \<and> i \<noteq> e
           \<longrightarrow> trim (js_split CHR 0x0A doc ! i) \<noteq> marker"
  shows "parseGenFile S Y doc =
           Inr \<lparr>ParsedGenFile.notation_text = trim (join nl (take s (js_split CHR 0x0A doc))),
                ParsedGenFile.metadata =
                  (case Y (join nl (drop (Suc s) (take e (js_split CHR 0x0A doc)))) of
                     Threw \<Rightarrow> Map.empty
                   | Parsed parsed \<Rightarrow>
                       if is_object parsed then
                         (case normalizeMetadataKeys S parsed of
                            Inl err \<Rightarrow> Map.empty
                          | Inr normalized \<Rightarrow> normalized)
                       else Map.empty)\<rparr>"
proof -
  let ?ls = "js_split CHR 0x0A doc"
  have sc: "scanLines ?ls (int (length ?ls) - 1) (- 1, - 1) = Inr (int s, int e)"
    using scan_two [OF assms] .
  show ?thesis
    unfolding parseGenFile_def Let_def sc
    using assms(1,2) by (simp add: slice_take slice_mid)
qed

lemma mp_set: "set (marker_positions ls) = {i. i < length ls \<and> trim (ls ! i) = marker}"
  by (auto simp: marker_positions_def)

lemma mp_sorted: "sorted_wrt (<) (marker_positions ls)"
  by (simp add: marker_positions_def sorted_wrt_filter)

lemma mp_none:
  assumes "marker_positions ls = []"
  shows "\<forall>i < length ls. trim (ls ! i) \<noteq> marker"
  using mp_set [of ls] assms by auto

lemma mp_one:
  assumes "marker_positions ls = [e]"
  shows "e < length ls \<and> trim (ls ! e) = marker
         \<and> (\<forall>i < length ls. i \<noteq> e \<longrightarrow> trim (ls ! i) \<noteq> marker)"
  using mp_set [of ls] assms by auto

lemma mp_last_two:
  assumes "2 \<le> length (marker_positions ls)"
  defines "s \<equiv> marker_positions ls ! (length (marker_positions ls) - 2)"
    and "e \<equiv> marker_positions ls ! (length (marker_positions ls) - 1)"
  shows "s < e \<and> e < length ls \<and> trim (ls ! s) = marker \<and> trim (ls ! e) = marker
         \<and> (\<forall>i. s < i \<and> i < length ls \<and> i \<noteq> e \<longrightarrow> trim (ls ! i) \<noteq> marker)"
proof -
  let ?ms = "marker_positions ls"
  let ?m = "length ?ms"
  have se: "s < e"
    unfolding s_def e_def using assms(1) by (intro sorted_wrt_nth_less [OF mp_sorted]) auto
  have "s \<in> set ?ms" "e \<in> set ?ms"
    unfolding s_def e_def using assms(1) by (auto intro: nth_mem)
  then have mem: "s < length ls" "trim (ls ! s) = marker" "e < length ls" "trim (ls ! e) = marker"
    by (auto simp: mp_set)
  have rest: "trim (ls ! i) \<noteq> marker" if i: "s < i" "i < length ls" "i \<noteq> e" for i
  proof
    assume "trim (ls ! i) = marker"
    with i have "i \<in> set ?ms" by (simp add: mp_set)
    then obtain j where j: "j < ?m" "?ms ! j = i" by (auto simp: in_set_conv_nth)
    have "j \<noteq> ?m - 1" using j i(3) by (auto simp: e_def)
    with j(1) have "j \<le> ?m - 2" by arith
    have "?ms ! j \<le> ?ms ! (?m - 2)"
    proof (cases "j = ?m - 2")
      case True
      then show ?thesis by simp
    next
      case False
      with \<open>j \<le> ?m - 2\<close> have "j < ?m - 2" by arith
      then have "?ms ! j < ?ms ! (?m - 2)"
        using assms(1) by (intro sorted_wrt_nth_less [OF mp_sorted]) auto
      then show ?thesis by simp
    qed
    with j(2) i(1) show False by (simp add: s_def)
  qed
  show ?thesis using se mem rest by blast
qed

lemma parse_fallback:
  assumes "scanLines (js_split CHR 0x0A doc) (int (length (js_split CHR 0x0A doc)) - 1) (- 1, - 1)
             = Inr (- 1, e)"
  shows "parseGenFile S Y doc
           = Inr \<lparr>ParsedGenFile.notation_text = trim doc, ParsedGenFile.metadata = Map.empty\<rparr>"
  unfolding parseGenFile_def Let_def assms by simp

lemma parse_few:
  assumes "length (marker_positions (js_split CHR 0x0A doc)) < 2"
  shows "parseGenFile S Y doc
           = Inr \<lparr>ParsedGenFile.notation_text = trim doc, ParsedGenFile.metadata = Map.empty\<rparr>"
proof (cases "marker_positions (js_split CHR 0x0A doc)")
  case Nil
  show ?thesis
    by (rule parse_fallback [where e = "- 1"]) (rule scan_none [OF mp_none [OF Nil]])
next
  case (Cons e rest)
  with assms have one: "marker_positions (js_split CHR 0x0A doc) = [e]" by simp
  show ?thesis
    by (rule parse_fallback [where e = "int e"]) (use mp_one [OF one] in \<open>simp add: scan_one\<close>)
qed

text \<open>
  C5: a text with fewer than two lines whose trimmed content is the marker is returned
  whole: the metadata is the empty mapping and the notation is the trimmed input.
\<close>
theorem parse_without_block:
  "length (marker_positions (js_split CHR 0x0A doc)) < 2 \<Longrightarrow>
   parseGenFile S Y doc
     = Inr \<lparr>ParsedGenFile.notation_text = trim doc, ParsedGenFile.metadata = Map.empty\<rparr>"
  by (rule parse_few)

theorem parse_without_block_witness:
  "length (marker_positions (js_split CHR 0x0A doc_one_marker)) < 2
   \<and> parseGenFile show_nat sample_yaml doc_one_marker
       = Inr \<lparr>ParsedGenFile.notation_text = ''C D E'' @ nl @ ''---'' @ nl @ ''tempo: 120'',
              ParsedGenFile.metadata = Map.empty\<rparr>"
proof -
  have h: "length (marker_positions (js_split CHR 0x0A doc_one_marker)) < 2"
    by code_simp
  have t: "trim doc_one_marker = ''C D E'' @ nl @ ''---'' @ nl @ ''tempo: 120''"
    by code_simp
  show ?thesis
    using h parse_without_block [OF h, of show_nat sample_yaml] by (simp add: t)
qed




text \<open>
  C7: the parser returns a result on every input, and when the decoder throws on the
  block between the last two markers the metadata is empty while the notation is still the
  trimmed join of the lines before the start marker.
\<close>

theorem parse_total:
  "(\<exists>r. parseGenFile S Y doc = Inr r)
   \<and> (let ls = js_split CHR 0x0A doc;
          ms = marker_positions ls;
          s = ms ! (length ms - 2);
          e = ms ! (length ms - 1)
      in 2 \<le> length ms \<longrightarrow> Y (join nl (drop (Suc s) (take e ls))) = Threw \<longrightarrow>
         parseGenFile S Y doc
           = Inr \<lparr>ParsedGenFile.notation_text = trim (join nl (take s ls)),
                  ParsedGenFile.metadata = Map.empty\<rparr>)"
proof -
  let ?ls = "js_split CHR 0x0A doc"
  let ?ms = "marker_positions ?ls"
  let ?s = "?ms ! (length ?ms - 2)"
  let ?e = "?ms ! (length ?ms - 1)"
  have block: "parseGenFile S Y doc
          = Inr \<lparr>ParsedGenFile.notation_text = trim (join nl (take ?s ?ls)),
                 ParsedGenFile.metadata =
                   (case Y (join nl (drop (Suc ?s) (take ?e ?ls))) of
                      Threw \<Rightarrow> Map.empty
                    | Parsed parsed \<Rightarrow>
                        if is_object parsed then
                          (case normalizeMetadataKeys S parsed of
                             Inl err \<Rightarrow> Map.empty
                           | Inr normalized \<Rightarrow> normalized)
                        else Map.empty)\<rparr>"
    if "2 \<le> length ?ms"
    by (rule parse_at) (use mp_last_two [OF that] in blast)+
  have total: "\<exists>r. parseGenFile S Y doc = Inr r"
  proof (cases "2 \<le> length ?ms")
    case True
    then show ?thesis using block by blast
  next
    case False
    then have "length ?ms < 2" by simp
    then show ?thesis using parse_few by blast
  qed
  have bad: "parseGenFile S Y doc
           = Inr \<lparr>ParsedGenFile.notation_text = trim (join nl (take ?s ?ls)),
                  ParsedGenFile.metadata = Map.empty\<rparr>"
    if "2 \<le> length ?ms" "Y (join nl (drop (Suc ?s) (take ?e ?ls))) = Threw"
    using block [OF that(1)] that(2) by simp
  show ?thesis unfolding Let_def using total bad by blast
qed

theorem parse_total_witness:
  "(\<exists>r. parseGenFile show_nat sample_yaml doc_malformed = Inr r)
   \<and> 2 \<le> length (marker_positions (js_split CHR 0x0A doc_malformed))
   \<and> sample_yaml ''title: ['' = Threw
   \<and> parseGenFile show_nat sample_yaml doc_malformed
       = Inr \<lparr>ParsedGenFile.notation_text = ''E F'', ParsedGenFile.metadata = Map.empty\<rparr>"
proof -
  let ?ls = "js_split CHR 0x0A doc_malformed"
  let ?ms = "marker_positions ?ls"
  have h: "2 \<le> length ?ms"
    by code_simp
  have n: "trim (join nl (take (?ms ! (length ?ms - 2)) ?ls)) = ''E F''"
    by code_simp
  have b: "join nl (drop (Suc (?ms ! (length ?ms - 2))) (take (?ms ! (length ?ms - 1)) ?ls))
             = ''title: [''"
    by code_simp
  have y: "sample_yaml ''title: ['' = Threw"
    by code_simp
  show ?thesis
    using h y parse_total [of show_nat sample_yaml doc_malformed, unfolded Let_def n b]
    by blast
qed

text \<open>
  C3 (amended): for every body \<open>B\<close> and every mapping \<open>M\<close> of scalar values whose encoding
  decodes back to \<open>M\<close> and has no line that trims to the marker, parsing
  \<open>B + "\n---\n" + encode(M) + "\n---\n"\<close> gives the notation \<open>trim(B)\<close> and a metadata
  that agrees, on every key other than \<open>__proto__\<close>, with \<open>M\<close>, keys converted to
  camelCase and values rendered as strings.
\<close>

theorem round_trip:
  assumes "Y (encode M) = Parsed (JObj M)"
    and "\<forall>l \<in> set (js_split CHR 0x0A (encode M)). trim l \<noteq> marker"
    and "\<forall>(k, v) \<in> set M. is_scalar v"
  shows "\<exists>r rendered.
           parseGenFile S Y (B @ nl @ marker @ nl @ encode M @ nl @ marker @ nl) = Inr r
           \<and> ParsedGenFile.notation_text r = trim B
           \<and> render_all S M = Inr rendered
           \<and> map fst rendered = map fst M
           \<and> (\<forall>k. k \<noteq> ''__proto__'' \<longrightarrow> ParsedGenFile.metadata r k = camel_map rendered k)"
proof -
  let ?lb = "js_split CHR 0x0A B"
  let ?le = "js_split CHR 0x0A (encode M)"
  let ?doc = "B @ nl @ marker @ nl @ encode M @ nl @ marker @ nl"
  let ?s = "length ?lb"
  let ?e = "length ?lb + 1 + length ?le"
  let ?md = "case Y (join nl (drop (Suc ?s) (take ?e (js_split CHR 0x0A ?doc)))) of
               Threw \<Rightarrow> Map.empty
             | Parsed parsed \<Rightarrow>
                 if is_object parsed then
                   (case normalizeMetadataKeys S parsed of
                      Inl err \<Rightarrow> Map.empty
                    | Inr normalized \<Rightarrow> normalized)
                 else Map.empty"
  let ?r = "\<lparr>ParsedGenFile.notation_text = trim (join nl (take ?s (js_split CHR 0x0A ?doc))),
             ParsedGenFile.metadata = ?md\<rparr>"
  have m1: "js_split CHR 0x0A marker = [marker]"
    by (simp add: marker_def)
  have ls: "js_split CHR 0x0A ?doc = ?lb @ [marker] @ ?le @ [marker, []]"
    by (simp add: nl_def js_split_append m1)
  have nth_s: "(?lb @ [marker] @ ?le @ [marker, []]) ! ?s = marker"
    by (simp add: nth_append)
  have nth_e: "(?lb @ [marker] @ ?le @ [marker, []]) ! ?e = marker"
    by (simp add: nth_append)
  have between: "trim ((?lb @ [marker] @ ?le @ [marker, []]) ! i) \<noteq> marker"
    if "?s < i" "i < length (?lb @ [marker] @ ?le @ [marker, []])" "i \<noteq> ?e" for i
  proof (cases "i < ?e")
    case True
    with that(1) have "(?lb @ [marker] @ ?le @ [marker, []]) ! i = ?le ! (i - ?s - 1)"
      and "i - ?s - 1 < length ?le"
      by (auto simp: nth_append)
    then show ?thesis using assms(2) by (metis nth_mem)
  next
    case False
    with that have "i = Suc ?e" by simp
    then have "(?lb @ [marker] @ ?le @ [marker, []]) ! i = []"
      by (simp add: nth_append)
    then show ?thesis by (simp add: trim_Nil marker_def)
  qed
  have p: "parseGenFile S Y ?doc = Inr ?r"
  proof (rule parse_at)
    show "?s < ?e" by simp
    show "?e < length (js_split CHR 0x0A ?doc)" unfolding ls by simp
    show "trim (js_split CHR 0x0A ?doc ! ?s) = marker" unfolding ls nth_s by (rule trim_marker)
    show "trim (js_split CHR 0x0A ?doc ! ?e) = marker" unfolding ls nth_e by (rule trim_marker)
    show "\<forall>i. ?s < i \<and> i < length (js_split CHR 0x0A ?doc) \<and> i \<noteq> ?e
            \<longrightarrow> trim (js_split CHR 0x0A ?doc ! i) \<noteq> marker"
      unfolding ls using between by blast
  qed
  have tk: "take ?s (js_split CHR 0x0A ?doc) = ?lb"
    unfolding ls by simp
  have dr: "drop (Suc ?s) (take ?e (js_split CHR 0x0A ?doc)) = ?le"
    unfolding ls by simp
  have jn: "join nl ?lb = B" "join nl ?le = encode M"
    by (simp_all add: nl_def join_split)
  have n: "ParsedGenFile.notation_text ?r = trim B"
    by (simp add: tk jn)
  have dp: "decoded_pairs (Y (join nl (drop (Suc ?s) (take ?e (js_split CHR 0x0A ?doc))))) = M"
    unfolding dr jn(2) assms(1) by (simp add: decoded_pairs_def)
  obtain rendered where rd: "render_all S M = Inr rendered" "map fst rendered = map fst M"
    using scalars_render [OF assms(3)] by blast
  have md: "?md k = camel_map rendered k" if "k \<noteq> ''__proto__''" for k
    by (rule caught_metadata(3) [OF _ that]) (simp only: dp rd)
  have mr: "\<forall>k. k \<noteq> ''__proto__'' \<longrightarrow> ParsedGenFile.metadata ?r k = camel_map rendered k"
    using md by simp
  show ?thesis
  proof (intro exI conjI)
    show "parseGenFile S Y ?doc = Inr ?r" by (rule p)
    show "ParsedGenFile.notation_text ?r = trim B" by (rule n)
    show "render_all S M = Inr rendered" by (rule rd)
    show "map fst rendered = map fst M" by (rule rd)
    show "\<forall>k. k \<noteq> ''__proto__'' \<longrightarrow> ParsedGenFile.metadata ?r k = camel_map rendered k"
      by (rule mr)
  qed
qed

theorem round_trip_witness:
  "sample_yaml (sample_encode ode_pairs) = Parsed (JObj ode_pairs)
   \<and> marker \<notin> set (map trim (js_split CHR 0x0A (sample_encode ode_pairs)))
   \<and> list_all (\<lambda>(k, v). is_scalar v) ode_pairs
   \<and> map_sum id (\<lambda>r. (ParsedGenFile.notation_text r,
                        map (ParsedGenFile.metadata r) [''title'', ''timeSignature'']))
        (parseGenFile show_nat sample_yaml
           (''E E F G '' @ nl @ marker @ nl @ sample_encode ode_pairs @ nl @ marker @ nl))
       = Inr (''E E F G'', [Some ''Ode to Joy'', Some ''4/4''])"
proof -
  have h1: "sample_yaml (sample_encode ode_pairs) = Parsed (JObj ode_pairs)"
    by code_simp
  have h2: "\<forall>l \<in> set (js_split CHR 0x0A (sample_encode ode_pairs)). trim l \<noteq> marker"
    by code_simp
  have sc: "list_all (\<lambda>(k, v). is_scalar v) ode_pairs"
    by code_simp
  then have h3: "\<forall>(k, v) \<in> set ode_pairs. is_scalar v"
    by (simp add: list_all_iff)
  have t: "trim ''E E F G '' = ''E E F G''"
    by code_simp
  have rd: "render_all show_nat ode_pairs
              = Inr [(''title'', ''Ode to Joy''), (''composer'', ''Ludwig van Beethoven''),
                     (''time-signature'', ''4/4'')]"
    by code_simp
  have v: "camel_map [(''title'', ''Ode to Joy''), (''composer'', ''Ludwig van Beethoven''),
                      (''time-signature'', ''4/4'')] ''title'' = Some ''Ode to Joy''"
    "camel_map [(''title'', ''Ode to Joy''), (''composer'', ''Ludwig van Beethoven''),
                (''time-signature'', ''4/4'')] ''timeSignature'' = Some ''4/4''"
    by code_simp+
  have k: "''title'' \<noteq> ''__proto__''" "''timeSignature'' \<noteq> ''__proto__''"
    by simp_all
  from round_trip [where Y = sample_yaml and encode = sample_encode and S = show_nat
      and B = "''E E F G ''", OF h1 h2 h3]
  obtain r rendered where r:
    "parseGenFile show_nat sample_yaml
       (''E E F G '' @ nl @ marker @ nl @ sample_encode ode_pairs @ nl @ marker @ nl) = Inr r"
    "ParsedGenFile.notation_text r = trim ''E E F G ''"
    "render_all show_nat ode_pairs = Inr rendered"
    "\<forall>k. k \<noteq> ''__proto__'' \<longrightarrow> ParsedGenFile.metadata r k = camel_map rendered k"
    by blast
  from r(3) rd have "rendered = [(''title'', ''Ode to Joy''),
      (''composer'', ''Ludwig van Beethoven''), (''time-signature'', ''4/4'')]"
    by simp
  with r(4) k v have "ParsedGenFile.metadata r ''title'' = Some ''Ode to Joy''"
    "ParsedGenFile.metadata r ''timeSignature'' = Some ''4/4''"
    by auto
  then show ?thesis
    using h1 h2 sc r(1,2) t by auto
qed

theorem round_trip_counterexample:
  "sample_yaml literal_block = Parsed (JObj literal_pairs)
   \<and> list_all (\<lambda>(k, v). is_scalar v) literal_pairs
   \<and> map_sum id ParsedGenFile.notation_text
        (parseGenFile show_nat sample_yaml
           (''B'' @ nl @ marker @ nl @ literal_block @ nl @ marker @ nl))
       = Inr (''B'' @ nl @ ''---'' @ nl @ ''k: |-'' @ nl @ ''  x'')
   \<and> trim ''B'' \<noteq> ''B'' @ nl @ ''---'' @ nl @ ''k: |-'' @ nl @ ''  x''
   \<and> sample_yaml (sample_encode proto_pairs) = Parsed (JObj proto_pairs)
   \<and> list_all (\<lambda>(k, v). is_scalar v) proto_pairs
   \<and> map_sum id (\<lambda>r. map (ParsedGenFile.metadata r) [''title'', ''__proto__''])
        (parseGenFile show_nat sample_yaml
           (''B'' @ nl @ marker @ nl @ sample_encode proto_pairs @ nl @ marker @ nl))
       = Inr [Some ''T'', None]"
  by code_simp




section \<open>Filtering\<close>

lemma starts_with_iff: "starts_with s q \<longleftrightarrow> (\<exists>after. s = q @ after)"
  by (induction s q rule: starts_with.induct) auto

lemma js_includes_iff: "js_includes s q \<longleftrightarrow> (\<exists>before after. s = before @ q @ after)"
proof (induction s)
  case Nil
  show ?case by auto
next
  case (Cons c cs)
  have "(\<exists>before after. c # cs = before @ q @ after)
          \<longleftrightarrow> (\<exists>after. c # cs = q @ after) \<or> (\<exists>before after. cs = before @ q @ after)"
  proof
    assume "\<exists>before after. c # cs = before @ q @ after"
    then obtain before after where d: "c # cs = before @ q @ after" by blast
    show "(\<exists>after. c # cs = q @ after) \<or> (\<exists>before after. cs = before @ q @ after)"
    proof (cases before)
      case Nil
      with d show ?thesis by auto
    next
      case (Cons b bs)
      with d have "cs = bs @ q @ after" by simp
      then show ?thesis by blast
    qed
  next
    assume "(\<exists>after. c # cs = q @ after) \<or> (\<exists>before after. cs = before @ q @ after)"
    then show "\<exists>before after. c # cs = before @ q @ after"
    proof
      assume "\<exists>after. c # cs = q @ after"
      then obtain after where "c # cs = [] @ q @ after" by auto
      then show ?thesis by blast
    next
      assume "\<exists>before after. cs = before @ q @ after"
      then obtain before after where "c # cs = (c # before) @ q @ after" by auto
      then show ?thesis by blast
    qed
  qed
  then show ?case using Cons.IH by (simp add: starts_with_iff)
qed

lemma partial_mismatch_iff:
  "partial_mismatch c field \<longleftrightarrow>
     \<not> (\<forall>q. c = Some q \<and> q \<noteq> [] \<longrightarrow> (\<exists>t. field = Some t \<and> contains_ci t q))"
  by (cases "(c, field)" rule: partial_mismatch.cases)
     (auto simp: contains_ci_def js_includes_iff)

lemma category_mismatch_iff:
  "category_mismatch c cat full \<longleftrightarrow>
     \<not> (\<forall>q. c = Some q \<and> q \<noteq> [] \<longrightarrow> equal_ci cat q \<or> equal_ci full q)"
  by (cases c) (auto simp: equal_ci_def)

lemma exact_mismatch_iff:
  "exact_mismatch c field \<longleftrightarrow> \<not> (\<forall>q. c = Some q \<and> q \<noteq> [] \<longrightarrow> field = Some q)"
  by (cases c) auto

lemma keeps_conj:
  "keeps f s \<longleftrightarrow>
     \<not> partial_mismatch (ScoreFilter.title f) (Score.title s)
     \<and> \<not> partial_mismatch (ScoreFilter.composer f) (Score.composer s)
     \<and> \<not> category_mismatch (ScoreFilter.category f) (Score.category s) (Score.fullCategory s)
     \<and> \<not> exact_mismatch (ScoreFilter.timeSignature f) (Score.timeSignature s)
     \<and> \<not> exact_mismatch (ScoreFilter.tempo f) (Score.tempo s)
     \<and> \<not> exact_mismatch (ScoreFilter.keySignature f) (Score.keySignature s)"
  by (simp add: keeps_def)

lemma keeps_satisfies: "keeps f = satisfies f"
proof (rule ext)
  fix s
  show "keeps f s = satisfies f s"
    unfolding keeps_conj satisfies_def
    by (simp only: partial_mismatch_iff category_mismatch_iff exact_mismatch_iff not_not)
qed

lemma partial_mismatch_drop: "partial_mismatch (drop_empty c) field = partial_mismatch c field"
  by (cases "(c, field)" rule: partial_mismatch.cases; cases c rule: drop_empty.cases) auto

lemma category_mismatch_drop:
  "category_mismatch (drop_empty c) cat full = category_mismatch c cat full"
  by (cases c rule: drop_empty.cases) auto

lemma exact_mismatch_drop: "exact_mismatch (drop_empty c) field = exact_mismatch c field"
  by (cases c rule: drop_empty.cases) auto

lemma keeps_without_empty: "keeps (without_empty f) = keeps f"
  by (rule ext)
     (simp add: keeps_def without_empty_def partial_mismatch_drop category_mismatch_drop
        exact_mismatch_drop)

lemma keeps_no_criteria:
  assumes "\<forall>c \<in> set (criteria f). c = None \<or> c = Some []"
  shows "keeps f s"
proof -
  have pm: "\<not> partial_mismatch c field" if "c = None \<or> c = Some []" for c field
    using that by (cases field) auto
  have cm: "\<not> category_mismatch c cat full" if "c = None \<or> c = Some []" for c cat full
    using that by auto
  have em: "\<not> exact_mismatch c field" if "c = None \<or> c = Some []" for c field
    using that by auto
  show ?thesis
    using assms by (simp add: keeps_def criteria_def pm cm em)
qed

text \<open>
  C2: on whatever catalog the load returns, filtering by \<open>f\<close> returns, in catalog order,
  exactly the records that satisfy every criterion of \<open>f\<close> that is set, a criterion being
  set when it is given and not the empty string (the source's truthiness test): title and
  composer by case-insensitive containment, failing on a record without the field; category
  by case-insensitive equality with the category or the full category; time signature,
  tempo and key signature by exact equality with the field.
\<close>
theorem filter_conjunction:
  assumes "loadAllScores S Y root cache = (Inr scores, cache')"
  shows "filterScores S Y root cache (Some f) = (Inr (filter (satisfies f) scores), cache')"
proof -
  have "filter (keeps f) scores = filter (satisfies f) scores"
    by (simp add: keeps_satisfies)
  then show ?thesis
    by (simp add: filterScores_def assms)
qed

text \<open>
  C10: a criterion that is present but the empty string constrains nothing: the filter
  returns what it returns with those criteria absent, and when every criterion is absent or
  the empty string it returns what the call without a filter returns, the full catalog in
  cache order.
\<close>
theorem empty_criteria_ignored:
  "filterScores S Y root cache (Some f) = filterScores S Y root cache (Some (without_empty f))
   \<and> ((\<forall>c \<in> set (criteria f). c = None \<or> c = Some []) \<longrightarrow>
        filterScores S Y root cache (Some f) = filterScores S Y root cache None)"
proof -
  have a: "filterScores S Y root cache (Some f)
             = filterScores S Y root cache (Some (without_empty f))"
    by (simp add: filterScores_def keeps_without_empty split: prod.splits sum.splits)
  have b: "filterScores S Y root cache (Some f) = filterScores S Y root cache None"
    if "\<forall>c \<in> set (criteria f). c = None \<or> c = Some []"
  proof -
    have "filter (keeps f) scores = scores" for scores
      using keeps_no_criteria [OF that] by simp
    then show ?thesis
      by (simp add: filterScores_def split: prod.splits sum.splits)
  qed
  show ?thesis using a b by blast
qed

theorem filter_conjunction_witness:
  "loadAllScores show_nat sample_yaml no_root (Some sample_catalog)
     = (Inr sample_catalog, Some sample_catalog)
   \<and> map_sum id (map Score.path)
         (fst (filterScores show_nat sample_yaml no_root (Some sample_catalog) (Some bach_filter)))
       = Inr [''baroque/air.gen'']"
proof -
  have h: "loadAllScores show_nat sample_yaml no_root (Some sample_catalog)
             = (Inr sample_catalog, Some sample_catalog)"
    by (simp add: loadAllScores_def)
  have v: "map Score.path (filter (keeps bach_filter) sample_catalog) = [''baroque/air.gen'']"
    by code_simp
  show ?thesis
    using h v filter_conjunction [OF h, of bach_filter]
    by (simp add: keeps_satisfies)
qed

theorem empty_criteria_ignored_witness:
  "set (criteria empty_filter) = {Some []}
   \<and> map_sum id (map Score.path)
         (fst (filterScores show_nat sample_yaml no_root (Some sample_catalog) (Some empty_filter)))
       = Inr [''baroque/air.gen'', ''classical/sonata.gen'', ''baroque/suites/untitled.gen'']"
proof -
  have c: "set (criteria empty_filter) = {Some []}"
    by (simp add: criteria_def empty_filter_def)
  then have h: "\<forall>c \<in> set (criteria empty_filter). c = None \<or> c = Some []"
    by simp
  have n: "filterScores show_nat sample_yaml no_root (Some sample_catalog) None
             = (Inr sample_catalog, Some sample_catalog)"
    by (simp add: filterScores_def loadAllScores_def)
  have v: "map Score.path sample_catalog
             = [''baroque/air.gen'', ''classical/sonata.gen'', ''baroque/suites/untitled.gen'']"
    by code_simp
  have e: "filterScores show_nat sample_yaml no_root (Some sample_catalog) (Some empty_filter)
             = filterScores show_nat sample_yaml no_root (Some sample_catalog) None"
    using h
      empty_criteria_ignored [of show_nat sample_yaml no_root "Some sample_catalog" empty_filter]
    by blast
  show ?thesis
    unfolding e n using c v by simp
qed

section \<open>Category and composer listings\<close>

lemma set_set_add: "set (set_add xs x) = insert x (set xs)"
  by (auto simp: set_add_def)

lemma distinct_set_add: "distinct xs \<Longrightarrow> distinct (set_add xs x)"
  by (simp add: set_add_def)

lemma set_fold_categories:
  "set (fold (\<lambda>score categories.
             let added = set_add categories (Score.category score)
             in if Score.fullCategory score \<noteq> []
                   \<and> Score.fullCategory score \<noteq> Score.category score
                then set_add added (Score.fullCategory score) else added) scores acc)
     = set acc \<union> Score.category ` set scores
       \<union> {Score.fullCategory s |s. s \<in> set scores \<and> Score.fullCategory s \<noteq> []
            \<and> Score.fullCategory s \<noteq> Score.category s}"
proof (induction scores arbitrary: acc)
  case Nil
  show ?case by simp
next
  case (Cons s scores)
  show ?case
    by (simp only: fold_Cons comp_apply Cons.IH) (auto simp: Let_def set_set_add)
qed

lemma distinct_fold_categories:
  "distinct acc \<Longrightarrow>
   distinct (fold (\<lambda>score categories.
             let added = set_add categories (Score.category score)
             in if Score.fullCategory score \<noteq> []
                   \<and> Score.fullCategory score \<noteq> Score.category score
                then set_add added (Score.fullCategory score) else added) scores acc)"
proof (induction scores arbitrary: acc)
  case Nil
  then show ?case by simp
next
  case (Cons s scores)
  show ?case
    by (simp only: fold_Cons comp_apply) (rule Cons.IH, simp add: Let_def distinct_set_add Cons.prems)
qed

lemma set_fold_composers:
  "set (fold (\<lambda>score composers.
             case Score.composer score of
               None \<Rightarrow> composers
             | Some c \<Rightarrow> if c \<noteq> [] then set_add composers c else composers) scores acc)
     = set acc \<union> {c. c \<noteq> [] \<and> (\<exists>s. s \<in> set scores \<and> Score.composer s = Some c)}"
proof (induction scores arbitrary: acc)
  case Nil
  show ?case by simp
next
  case (Cons s scores)
  show ?case
    by (simp only: fold_Cons comp_apply Cons.IH) (auto simp: set_set_add split: option.splits)
qed

lemma distinct_fold_composers:
  "distinct acc \<Longrightarrow>
   distinct (fold (\<lambda>score composers.
             case Score.composer score of
               None \<Rightarrow> composers
             | Some c \<Rightarrow> if c \<noteq> [] then set_add composers c else composers) scores acc)"
proof (induction scores arbitrary: acc)
  case Nil
  then show ?case by simp
next
  case (Cons s scores)
  show ?case
    by (simp only: fold_Cons comp_apply)
       (rule Cons.IH, simp add: distinct_set_add Cons.prems split: option.splits)
qed

text \<open>
  C8 (amended): the categories listed are the distinct category values together with the
  distinct full-category values that are not empty and differ from their record's category;
  the composers listed are the distinct non-empty composer values; both lists are sorted
  lexicographically and free of duplicates.
\<close>

theorem categories_and_composers:
  assumes "loadAllScores S Y root cache = (Inr scores, cache')"
  shows "\<exists>cats comps.
           getAllCategories S Y root cache = (Inr cats, cache')
           \<and> getAllComposers S Y root cache = (Inr comps, cache')
           \<and> set cats = Score.category ` set scores
                \<union> {Score.fullCategory s |s. s \<in> set scores \<and> Score.fullCategory s \<noteq> []
                     \<and> Score.fullCategory s \<noteq> Score.category s}
           \<and> sorted cats \<and> distinct cats
           \<and> set comps = {c. c \<noteq> [] \<and> (\<exists>s. s \<in> set scores \<and> Score.composer s = Some c)}
           \<and> sorted comps \<and> distinct comps"
proof -
  have a: "getAllCategories S Y root cache = (Inr (sort (collect_categories scores)), cache')"
    by (simp add: getAllCategories_def assms)
  have b: "getAllComposers S Y root cache = (Inr (sort (collect_composers scores)), cache')"
    by (simp add: getAllComposers_def assms)
  have c: "set (sort (collect_categories scores)) = Score.category ` set scores
                \<union> {Score.fullCategory s |s. s \<in> set scores \<and> Score.fullCategory s \<noteq> []
                     \<and> Score.fullCategory s \<noteq> Score.category s}"
    by (simp add: collect_categories_def set_fold_categories)
  have d: "distinct (sort (collect_categories scores))"
    by (simp add: collect_categories_def distinct_fold_categories)
  have e: "set (sort (collect_composers scores))
             = {c. c \<noteq> [] \<and> (\<exists>s. s \<in> set scores \<and> Score.composer s = Some c)}"
    by (simp add: collect_composers_def set_fold_composers)
  have f: "distinct (sort (collect_composers scores))"
    by (simp add: collect_composers_def distinct_fold_composers)
  show ?thesis
    using a b c d e f sorted_sort by blast
qed

theorem categories_and_composers_witness:
  "loadAllScores show_nat sample_yaml no_root (Some sample_catalog)
     = (Inr sample_catalog, Some sample_catalog)
   \<and> fst (getAllCategories show_nat sample_yaml no_root (Some sample_catalog))
       = Inr [''baroque'', ''baroque/suites'', ''classical'']
   \<and> fst (getAllComposers show_nat sample_yaml no_root (Some sample_catalog))
       = Inr [''Johann Sebastian Bach'', ''Mozart'']
   \<and> {c. c \<noteq> [] \<and> (\<exists>s. s \<in> set sample_catalog \<and> Score.composer s = Some c)}
       = {''Johann Sebastian Bach'', ''Mozart''}"
proof -
  have h: "loadAllScores show_nat sample_yaml no_root (Some sample_catalog)
             = (Inr sample_catalog, Some sample_catalog)"
    by (simp add: loadAllScores_def)
  have v1: "fst (getAllCategories show_nat sample_yaml no_root (Some sample_catalog))
       = Inr [''baroque'', ''baroque/suites'', ''classical'']"
    by code_simp
  have v2: "fst (getAllComposers show_nat sample_yaml no_root (Some sample_catalog))
       = Inr [''Johann Sebastian Bach'', ''Mozart'']"
    by code_simp
  from categories_and_composers [OF h] obtain comps where
    "getAllComposers show_nat sample_yaml no_root (Some sample_catalog)
       = (Inr comps, Some sample_catalog)"
    "set comps = {c. c \<noteq> [] \<and> (\<exists>s. s \<in> set sample_catalog \<and> Score.composer s = Some c)}"
    by blast
  with v2 have "{c. c \<noteq> [] \<and> (\<exists>s. s \<in> set sample_catalog \<and> Score.composer s = Some c)}
       = {''Johann Sebastian Bach'', ''Mozart''}"
    by auto
  with h v1 v2 show ?thesis by blast
qed

theorem categories_counterexample:
  "map_sum id (map (\<lambda>s. (Score.category s, Score.fullCategory s)))
       (fst (loadAllScores show_nat sample_yaml fs_song None)) = Inr [(''song.gen'', [])]
   \<and> fst (getAllCategories show_nat sample_yaml fs_song None) = Inr [''song.gen'']
   \<and> [] \<notin> set [''song.gen'']"
  by code_simp

section \<open>The directory scan\<close>

lemma js_split_no_sep: "c \<notin> set x \<Longrightarrow> js_split c x = [x]"
  by (induction x) auto

lemma split_join:
  "xs \<noteq> [] \<Longrightarrow> \<forall>x \<in> set xs. c \<notin> set x \<Longrightarrow> js_split c (join [c] xs) = xs"
proof (induction xs)
  case Nil
  then show ?case by simp
next
  case (Cons x xs)
  show ?case
  proof (cases "xs = []")
    case True
    then show ?thesis using Cons.prems by (simp add: js_split_no_sep)
  next
    case False
    then have "js_split c (join [c] xs) = xs" using Cons by simp
    then show ?thesis
      using False Cons.prems by (simp add: join_Cons js_split_append js_split_no_sep)
  qed
qed

lemma join_snoc: "xs \<noteq> [] \<Longrightarrow> join sep (xs @ [x]) = join sep xs @ sep @ x"
  by (induction sep xs rule: join.induct) auto

lemma join_Nil_iff: "\<forall>x \<in> set xs. x \<noteq> [] \<Longrightarrow> join sep xs = [] \<longleftrightarrow> xs = []"
  by (induction sep xs rule: join.induct) auto

lemma relative_path:
  assumes "\<forall>b \<in> set bs. good_name b"
  shows "(if join ''/'' bs \<noteq> [] then join ''/'' bs @ ''/'' @ name else name)
           = join ''/'' (bs @ [name])"
proof (cases "bs = []")
  case True
  then show ?thesis by simp
next
  case False
  moreover have "join ''/'' bs \<noteq> []"
    using assms False join_Nil_iff [of bs "''/''"] by (auto simp: good_name_def)
  ultimately show ?thesis by (simp add: join_snoc)
qed

lemma slice_butlast: "slice 0 (- 1) xs = butlast xs"
  by (simp add: slice_def Let_def butlast_conv_take max_def nat_diff_distrib)

lemma placement_make_score:
  assumes "\<forall>b \<in> set bs. good_name b" "good_name name"
  shows "placement (make_score (join ''/'' (bs @ [name])) name text parsed) = placed (bs, name)"
proof -
  have "js_split CHR ''/'' (join ''/'' (bs @ [name])) = bs @ [name]"
    using assms by (intro split_join) (auto simp: good_name_def)
  then show ?thesis
    by (simp add: placement_def make_score_def placed_def Let_def slice_butlast)
qed

lemma scan_entries_placed:
  assumes "\<forall>e \<in> set es. well_named e" "\<forall>b \<in> set bs. good_name b"
    and "scanEntries S Y es (join ''/'' bs) = Inr scores"
  shows "map placement scores = map (\<lambda>(ds, f). placed (bs @ ds, f)) (concat (map files_of es))"
  using assms
proof (induction es arbitrary: bs scores rule: measure_induct_rule [where f = "size_list size"])
  case (less es)
  show ?case
  proof (cases es)
    case Nil
    with less.prems show ?thesis by simp
  next
    case (Cons e rest)
    have wn_e: "well_named e" and wn_rest: "\<forall>e \<in> set rest. well_named e"
      using less.prems(1) Cons by auto
    have rel: "(if join ''/'' bs \<noteq> [] then join ''/'' bs @ ''/'' @ entry_name e else entry_name e)
                 = join ''/'' (bs @ [entry_name e])"
      by (rule relative_path [OF less.prems(2)])
    have IH_rest: "map placement r = map (\<lambda>(ds, f). placed (bs @ ds, f)) (concat (map files_of rest))"
      if "scanEntries S Y rest (join ''/'' bs) = Inr r" for r
      using less.IH [of rest bs r] wn_rest less.prems(2) that Cons by simp
    show ?thesis
    proof (cases e)
      case (File name body)
      show ?thesis
      proof (cases "endsWith name ''.gen''")
        case True
        from less.prems(3) obtain parsed r where
          p: "parseGenFile S Y body = Inr parsed"
          and r: "scanEntries S Y rest (join ''/'' bs) = Inr r"
          and s: "scores = make_score (join ''/'' (bs @ [name])) name body parsed # r"
          unfolding Cons File using True rel
          by (auto simp: File Let_def split: sum.splits if_splits)
        have "placement (make_score (join ''/'' (bs @ [name])) name body parsed) = placed (bs, name)"
          using wn_e less.prems(2) by (intro placement_make_score) (auto simp: File)
        then show ?thesis
          using IH_rest [OF r] True by (simp add: s Cons File)
      next
        case False
        with less.prems(3) have "scanEntries S Y rest (join ''/'' bs) = Inr scores"
          by (simp add: Cons File Let_def)
        then show ?thesis
          using IH_rest False by (simp add: Cons File)
      qed
    next
      case (Unreadable name)
      show ?thesis
      proof (cases "endsWith name ''.gen''")
        case True
        with less.prems(3) show ?thesis
          by (simp add: Cons Unreadable Let_def)
      next
        case False
        with less.prems(3) have "scanEntries S Y rest (join ''/'' bs) = Inr scores"
          by (simp add: Cons Unreadable Let_def)
        then show ?thesis
          using IH_rest False by (simp add: Cons Unreadable)
      qed
    next
      case (Dir name sub)
      from less.prems(3) obtain subScores r where
        sub: "scanEntries S Y sub (join ''/'' (bs @ [name])) = Inr subScores"
        and r: "scanEntries S Y rest (join ''/'' bs) = Inr r"
        and s: "scores = subScores @ r"
        unfolding Cons Dir using rel
        by (auto simp: Dir Let_def split: sum.splits if_splits)
      have "map placement subScores
              = map (\<lambda>(ds, f). placed ((bs @ [name]) @ ds, f)) (concat (map files_of sub))"
        using wn_e less.prems(2) sub
        by (intro less.IH) (auto simp: Cons Dir)
      then have "map placement subScores
              = map (\<lambda>(ds, f). placed (bs @ ds, f)) (files_of (Dir name sub))"
        by (simp add: case_prod_unfold comp_def)
      then show ?thesis
        using IH_rest [OF r] by (simp add: s Cons Dir)
    next
      case (NoAccess name)
      with less.prems(3) show ?thesis
        by (simp add: Cons Let_def)
    qed
  qed
qed

text \<open>
  C4 (amended): in a tree whose names are non-empty and free of slashes, a successful scan
  yields one record per \<open>.gen\<close> file, in traversal order, whose path is the directory names
  and the file name joined by slashes, whose category is the first of these segments and
  whose full category is the directory names joined by slashes. For a file directly inside
  a first-level directory the full category equals the category; for a file directly in
  the root the category is the file name and the full category is empty.
\<close>
theorem scan_placement:
  assumes "\<forall>e \<in> set es. well_named e"
    and "scanDirectory S Y (Dir root es) [] = Inr scores"
  shows "map placement scores = map placed (concat (map files_of es))
         \<and> (\<forall>f. placed ([], f) = (f, f, f, []))
         \<and> (\<forall>d f. placed ([d], f) = (d @ ''/'' @ f, f, d, d))"
proof -
  have "scanEntries S Y es (join ''/'' []) = Inr scores"
    using assms(2) by simp
  then have "map placement scores
               = map (\<lambda>(ds, f). placed ([] @ ds, f)) (concat (map files_of es))"
    using assms(1) by (intro scan_entries_placed) auto
  then show ?thesis
    by (simp add: placed_def)
qed

theorem scan_placement_witness:
  "list_all well_named nested_entries
   \<and> map_sum id (map placement)
         (scanDirectory show_nat sample_yaml (Dir ''scores'' nested_entries) [])
       = Inr [(''song.gen'', ''song.gen'', ''song.gen'', []),
              (''classical/ode.gen'', ''ode.gen'', ''classical'', ''classical''),
              (''classical/piano/air.gen'', ''air.gen'', ''classical'', ''classical/piano'')]"
proof -
  have wn: "list_all well_named nested_entries"
    by code_simp
  then have h: "\<forall>e \<in> set nested_entries. well_named e"
    by (simp add: list_all_iff)
  have "case scanDirectory show_nat sample_yaml (Dir ''scores'' nested_entries) [] of
          Inl err \<Rightarrow> False | Inr scores \<Rightarrow> True"
    by code_simp
  then obtain scores where
    sc: "scanDirectory show_nat sample_yaml (Dir ''scores'' nested_entries) [] = Inr scores"
    by (auto split: sum.splits)
  have v: "map placed (concat (map files_of nested_entries))
             = [(''song.gen'', ''song.gen'', ''song.gen'', []),
                (''classical/ode.gen'', ''ode.gen'', ''classical'', ''classical''),
                (''classical/piano/air.gen'', ''air.gen'', ''classical'', ''classical/piano'')]"
    by code_simp
  have "map placement scores = map placed (concat (map files_of nested_entries))"
    using scan_placement [OF h sc] by blast
  then show ?thesis
    unfolding sc v using wn by simp
qed

theorem scan_placement_counterexample:
  "map_sum id (map placement) (scanDirectory show_nat sample_yaml fs_song [])
     = Inr [(''song.gen'', ''song.gen'', ''song.gen'', [])]
   \<and> ''song.gen'' \<noteq> []"
  by code_simp

end
